theory Spec2Isabelle
  imports Main
begin

section \<open>MessageStore: a bounded, insertion-ordered message cache with remote fetch\<close>

text \<open>
  The development embeds \<^verbatim>\<open>src/stores/MessageStore.js\<close>. The class extends
  \<^verbatim>\<open>DataStore\<close>, which extends \<^verbatim>\<open>Collection\<close> (a JavaScript \<^verbatim>\<open>Map\<close>);
  neither base class nor the \<^verbatim>\<open>Message\<close> structure is part of the source at hand, so
  the operations inherited from them are modelled from the specification and marked
  as such. Everything written in \<^verbatim>\<open>MessageStore.js\<close> itself is translated from the
  code.

  Messages are objects with identity and mutable content, shared between the cache
  and the collections a fetch returns. They live in an explicit heap; the cache and
  the collections hold references into it.
\<close>

subsection \<open>Data\<close>

type_synonym snowflake = string

type_synonym ref = nat

text \<open>A raw record, as the remote service returns it: \<^verbatim>\<open>data.id\<close> and an opaque body.\<close>

record raw_message =
  raw_id :: snowflake
  raw_content :: string

text \<open>
  Modelled from the spec: the \<^verbatim>\<open>Message\<close> structure is missing. The specification's
  Entity has a unique, stable \<^verbatim>\<open>id\<close>, an owning context (the channel passed as
  \<^verbatim>\<open>extras\<close>) and opaque content owned by the constructor and by \<^verbatim>\<open>_patch\<close>.
\<close>

record message =
  msg_id :: snowflake
  msg_channel :: snowflake
  msg_content :: string

text \<open>
  Modelled from the spec: the \<^verbatim>\<open>Message\<close> constructor is missing. "Given a raw record
  and an owning context, produces an Entity."
\<close>

definition Message :: "snowflake \<Rightarrow> raw_message \<Rightarrow> message" where
  "Message ch data = \<lparr>msg_id = raw_id data, msg_channel = ch, msg_content = raw_content data\<rparr>"

text \<open>
  Modelled from the spec: \<^verbatim>\<open>Message._patch\<close> is missing. It "mutates the content in
  place from the fresh response"; the identifier of an entity is stable.
\<close>

definition patch :: "message \<Rightarrow> raw_message \<Rightarrow> message" where
  "patch m data = m\<lparr>msg_content := raw_content data\<rparr>"

text \<open>
  A \<^verbatim>\<open>Collection\<close> is a \<^verbatim>\<open>Map\<close>: keys in insertion order, each key once. It is an
  association list from identifiers to references, oldest entry first.
\<close>

type_synonym collection = "(snowflake \<times> ref) list"

text \<open>
  \<^verbatim>\<open>ChannelLogsQueryOptions\<close>, every property optional.
\<close>

record query_options =
  limit :: "int option"
  before :: "snowflake option"
  after :: "snowflake option"
  around :: "snowflake option"

text \<open>
  The first argument of \<^verbatim>\<open>fetch\<close> is untyped in JavaScript: a string, a number, an
  options object, or nothing at all.
\<close>

datatype selector = Str snowflake | Num int | Opts query_options | Undefined

datatype transport_error = NetworkError | HTTPError nat

text \<open>The three remote reads the store issues, each with the channel it is issued for.\<close>

datatype request =
    GetMessage snowflake snowflake
  | GetMessages snowflake selector
  | GetPins snowflake

text \<open>
  The transport collaborator, \<^verbatim>\<open>this.client.api\<close>: for each endpoint, either an error
  (the promise rejects) or the data the promise resolves to.
\<close>

record api =
  get_message :: "snowflake \<Rightarrow> snowflake \<Rightarrow> transport_error + raw_message"
  get_messages :: "snowflake \<Rightarrow> selector \<Rightarrow> transport_error + raw_message list"
  get_pins :: "snowflake \<Rightarrow> transport_error + raw_message list"

text \<open>
  The store and the part of the world it touches: \<^verbatim>\<open>this.client.options.messageCacheMaxSize\<close>,
  \<^verbatim>\<open>this.channel.id\<close>, the entries of the map, the heap of message objects, and the
  log of the requests sent to the transport (in the order sent).
\<close>

record store =
  messageCacheMaxSize :: int
  channel :: snowflake
  entries :: collection
  heap :: "message list"
  requests :: "request list"

subsection \<open>The inherited map operations\<close>

text \<open>Modelled from the spec: \<^verbatim>\<open>Collection.get\<close> is missing. "get(id) returns the Entity or absent."\<close>

fun Collection_get :: "collection \<Rightarrow> snowflake \<Rightarrow> ref option" where
  "Collection_get [] k = None"
| "Collection_get ((k', v) # es) k = (if k' = k then Some v else Collection_get es k)"

text \<open>
  Modelled from the spec: \<^verbatim>\<open>Collection.set\<close> is missing. "Insert/overwrite the mapping
  for id, preserving its position if the key already existed (update-in-place), or
  appending if new."
\<close>

fun Collection_set :: "snowflake \<Rightarrow> ref \<Rightarrow> collection \<Rightarrow> collection" where
  "Collection_set k v [] = [(k, v)]"
| "Collection_set k v ((k', v') # es) =
     (if k' = k then (k, v) # es else (k', v') # Collection_set k v es)"

text \<open>
  Modelled from the spec: \<^verbatim>\<open>Collection.delete\<close> is missing. "Removes the mapping if
  present; no error if absent."
\<close>

fun Collection_delete :: "snowflake \<Rightarrow> collection \<Rightarrow> collection" where
  "Collection_delete k [] = []"
| "Collection_delete k ((k', v') # es) =
     (if k' = k then es else (k', v') # Collection_delete k es)"

text \<open>
  Modelled from the spec: \<^verbatim>\<open>Collection.firstKey\<close> is missing. "Returns the oldest
  surviving key", absent on an empty map.
\<close>

fun firstKey :: "collection \<Rightarrow> snowflake option" where
  "firstKey [] = None"
| "firstKey ((k, v) # es) = Some k"

definition keys :: "collection \<Rightarrow> snowflake list" where
  "keys es = map fst es"

subsection \<open>MessageStore.set\<close>

text \<open>
  \<^verbatim>\<open>
  set(key, value) {
    const maxSize = this.client.options.messageCacheMaxSize;
    if (maxSize === 0) return;
    if (this.size >= maxSize && maxSize > 0) this.delete(this.firstKey());
    super.set(key, value);
  }
  \<close>
  \<^verbatim>\<open>this.delete(undefined)\<close>, on an empty map, removes nothing.
\<close>

definition MessageStore_delete :: "store \<Rightarrow> snowflake option \<Rightarrow> store" where
  "MessageStore_delete st key =
     (case key of None \<Rightarrow> st | Some k \<Rightarrow> st\<lparr>entries := Collection_delete k (entries st)\<rparr>)"

definition MessageStore_set :: "store \<Rightarrow> snowflake \<Rightarrow> ref \<Rightarrow> store" where
  "MessageStore_set st key val =
     (let maxSize = messageCacheMaxSize st in
      if maxSize = 0 then st
      else
        let st1 = (if int (length (entries st)) \<ge> maxSize \<and> maxSize > 0
                   then MessageStore_delete st (firstKey (entries st)) else st)
        in st1\<lparr>entries := Collection_set key val (entries st1)\<rparr>)"

text \<open>A sequence of \<^verbatim>\<open>set\<close> calls, in order.\<close>

fun set_all :: "store \<Rightarrow> (snowflake \<times> ref) list \<Rightarrow> store" where
  "set_all st [] = st"
| "set_all st ((k, v) # kvs) = set_all (MessageStore_set st k v) kvs"

definition get :: "store \<Rightarrow> snowflake \<Rightarrow> ref option" where
  "get st k = Collection_get (entries st) k"

subsection \<open>DataStore.add and MessageStore.add\<close>

text \<open>
  Modelled from the spec: \<^verbatim>\<open>DataStore.add\<close> is missing. An entity "enters the cache via
  set during an add (insert or construct-and-insert)"; a record whose identifier is
  already cached yields the cached object, identity unchanged; otherwise the entity
  is constructed from the record with the owning context (\<^verbatim>\<open>extras\<close>), stored with
  \<^verbatim>\<open>this.set\<close> when \<^verbatim>\<open>cache\<close> is true, and returned. \<^verbatim>\<open>this.set\<close> is the override
  above, since the receiver is the MessageStore.
\<close>

definition DataStore_add :: "store \<Rightarrow> raw_message \<Rightarrow> bool \<Rightarrow> snowflake \<Rightarrow> ref \<times> store" where
  "DataStore_add st data cache extras =
     (case get st (raw_id data) of
        Some existing \<Rightarrow> (existing, st)
      | None \<Rightarrow>
          let entry = length (heap st);
              st1 = st\<lparr>heap := heap st @ [Message extras data]\<rparr>
          in (entry, if cache then MessageStore_set st1 (raw_id data) entry else st1))"

text \<open>
  \<^verbatim>\<open>
  add(data, cache) {
    return super.add(data, cache, { extras: [this.channel] });
  }
  \<close>
  Every call in this file is \<^verbatim>\<open>this.add(message)\<close>: \<^verbatim>\<open>cache\<close> is undefined there and the
  base method's default, true, applies.
\<close>

definition add :: "store \<Rightarrow> raw_message \<Rightarrow> bool \<Rightarrow> ref \<times> store" where
  "add st data cache = DataStore_add st data cache (channel st)"

subsection \<open>Fetching\<close>

datatype fetch_result = Single ref | Many collection

text \<open>
  \<^verbatim>\<open>
  const messages = new Collection();
  for (const message of data) messages.set(message.id, this.add(message));
  return messages;
  \<close>
  The loop of \<^verbatim>\<open>_fetchMany\<close> and of \<^verbatim>\<open>fetchPinned\<close>, the same text in both.
  \<^verbatim>\<open>messages.set\<close> is the plain \<^verbatim>\<open>Collection.set\<close>: the result is not bounded.
\<close>

fun accumulate :: "store \<Rightarrow> collection \<Rightarrow> raw_message list \<Rightarrow> collection \<times> store" where
  "accumulate st messages [] = (messages, st)"
| "accumulate st messages (m # ms) =
     (case add st m True of
        (r, st1) \<Rightarrow> accumulate st1 (Collection_set (raw_id m) r messages) ms)"

definition send :: "store \<Rightarrow> request \<Rightarrow> store" where
  "send st rq = st\<lparr>requests := requests st @ [rq]\<rparr>"

text \<open>
  \<^verbatim>\<open>
  async _fetchId(messageID, overwrite) {
    const existing = this.get(messageID);
    const data = await this.client.api.channels[this.channel.id].messages[messageID].get();
    if (existing && overwrite) existing._patch(data);
    return this.add(data);
  }
  \<close>
  The function runs without interleaving here: nothing else touches the store while
  the request is awaited. A rejected request rejects the returned promise (\<open>Inl\<close>).
\<close>

definition fetchId :: "api \<Rightarrow> store \<Rightarrow> snowflake \<Rightarrow> bool \<Rightarrow> (transport_error + fetch_result) \<times> store" where
  "fetchId tr st messageID overwrite =
     (let existing = get st messageID;
          st1 = send st (GetMessage (channel st) messageID)
      in case get_message tr (channel st) messageID of
           Inl e \<Rightarrow> (Inl e, st1)
         | Inr data \<Rightarrow>
             let st2 = (case existing of
                          Some r \<Rightarrow>
                            if overwrite
                            then st1\<lparr>heap := (heap st1)[r := patch (heap st1 ! r) data]\<rparr>
                            else st1
                        | None \<Rightarrow> st1)
             in case add st2 data True of (r, st3) \<Rightarrow> (Inr (Single r), st3))"

text \<open>
  \<^verbatim>\<open>
  async _fetchMany(options = {}) {
    const data = await this.client.api.channels[this.channel.id].messages.get({ query: options });
    const messages = new Collection();
    for (const message of data) messages.set(message.id, this.add(message));
    return messages;
  }
  \<close>
  The default \<^verbatim>\<open>{}\<close> replaces an undefined argument only.
\<close>

definition empty_options :: query_options where
  "empty_options = \<lparr>limit = None, before = None, after = None, around = None\<rparr>"

definition default_options :: "selector \<Rightarrow> selector" where
  "default_options options = (case options of Undefined \<Rightarrow> Opts empty_options | _ \<Rightarrow> options)"

definition fetchMany :: "api \<Rightarrow> store \<Rightarrow> selector \<Rightarrow> (transport_error + fetch_result) \<times> store" where
  "fetchMany tr st options =
     (let query = default_options options;
          st1 = send st (GetMessages (channel st) query)
      in case get_messages tr (channel st) query of
           Inl e \<Rightarrow> (Inl e, st1)
         | Inr data \<Rightarrow>
             (case accumulate st1 [] data of (messages, st2) \<Rightarrow> (Inr (Many messages), st2)))"

text \<open>
  \<^verbatim>\<open>
  fetch(message, overwrite = false) {
    return typeof message === 'string' ? this._fetchId(message, overwrite)
                                       : this._fetchMany(message, overwrite);
  }
  \<close>
  \<^verbatim>\<open>_fetchMany\<close> declares one parameter; the second argument passed to it is dropped.
\<close>

definition fetch :: "api \<Rightarrow> store \<Rightarrow> selector \<Rightarrow> bool \<Rightarrow> (transport_error + fetch_result) \<times> store" where
  "fetch tr st message overwrite =
     (case message of
        Str messageID \<Rightarrow> fetchId tr st messageID overwrite
      | _ \<Rightarrow> fetchMany tr st message)"

text \<open>
  \<^verbatim>\<open>
  fetchPinned() {
    return this.client.api.channels[this.channel.id].pins.get().then(data => {
      const messages = new Collection();
      for (const message of data) messages.set(message.id, this.add(message));
      return messages;
    });
  }
  \<close>
\<close>

definition fetchPinned :: "api \<Rightarrow> store \<Rightarrow> (transport_error + fetch_result) \<times> store" where
  "fetchPinned tr st =
     (let st1 = send st (GetPins (channel st))
      in case get_pins tr (channel st) of
           Inl e \<Rightarrow> (Inl e, st1)
         | Inr data \<Rightarrow>
             (case accumulate st1 [] data of (messages, st2) \<Rightarrow> (Inr (Many messages), st2)))"

subsection \<open>Resolution helpers\<close>

text \<open>
  What \<^verbatim>\<open>resolve\<close> and \<^verbatim>\<open>resolveID\<close> may be given: a Message object, an identifier
  string, or anything else.
\<close>

datatype resolvable = Instance ref | Id snowflake | Neither

text \<open>
  Modelled from the spec: \<^verbatim>\<open>DataStore.resolve\<close> is missing (the source carries its
  documentation comment only). "If input is already an Entity, return it; if it is
  an identifier, look it up in the cache; otherwise absent." The store is returned
  beside the result, so that what the call leaves behind can be stated.
\<close>

definition resolve :: "store \<Rightarrow> resolvable \<Rightarrow> ref option \<times> store" where
  "resolve st input =
     (case input of
        Instance r \<Rightarrow> (Some r, st)
      | Id i \<Rightarrow> (get st i, st)
      | Neither \<Rightarrow> (None, st))"

text \<open>
  Modelled from the spec: \<^verbatim>\<open>DataStore.resolveID\<close> is missing (the source carries its
  documentation comment only). "Symmetric, returning the identifier form", and
  "returns absent for uncached".
\<close>

definition resolveID :: "store \<Rightarrow> resolvable \<Rightarrow> snowflake option \<times> store" where
  "resolveID st input =
     (case input of
        Instance r \<Rightarrow> (Some (msg_id (heap st ! r)), st)
      | Id i \<Rightarrow> (case get st i of Some r \<Rightarrow> (Some i, st) | None \<Rightarrow> (None, st))
      | Neither \<Rightarrow> (None, st))"

subsection \<open>Vocabulary of the properties\<close>

text \<open>The requests sent between an earlier state of the store and a later one.\<close>

definition issued :: "store \<Rightarrow> store \<Rightarrow> request list" where
  "issued st st' = drop (length (requests st)) (requests st')"

text \<open>
  The glossary's words, not the code's: an identifier is a "unique stable
  string/number naming an entity".
\<close>

definition spec_raw_identifier :: "selector \<Rightarrow> bool" where
  "spec_raw_identifier sel = (case sel of Str _ \<Rightarrow> True | Num _ \<Rightarrow> True | _ \<Rightarrow> False)"

text \<open>What the code tests: \<^verbatim>\<open>typeof message === 'string'\<close>.\<close>

definition is_string :: "selector \<Rightarrow> bool" where
  "is_string sel = (case sel of Str _ \<Rightarrow> True | _ \<Rightarrow> False)"

text \<open>
  The two paths of \<^verbatim>\<open>fetch\<close>, as a caller can tell them apart: by the one request
  that was sent, and by the shape of a successful result.
\<close>

definition single_item_path :: "store \<Rightarrow> (transport_error + fetch_result) \<times> store \<Rightarrow> bool" where
  "single_item_path st out =
     ((case issued st (snd out) of [GetMessage c i] \<Rightarrow> True | _ \<Rightarrow> False) \<and>
      (case fst out of Inr (Many messages) \<Rightarrow> False | _ \<Rightarrow> True))"

definition batch_path :: "store \<Rightarrow> (transport_error + fetch_result) \<times> store \<Rightarrow> bool" where
  "batch_path st out =
     ((case issued st (snd out) of [GetMessages c q] \<Rightarrow> True | _ \<Rightarrow> False) \<and>
      (case fst out of Inr (Single r) \<Rightarrow> False | _ \<Rightarrow> True))"

text \<open>The records of a response handed to \<^verbatim>\<open>add\<close> one after the other, in list order.\<close>

definition add_in_order :: "store \<Rightarrow> raw_message list \<Rightarrow> store" where
  "add_in_order st data = foldl (\<lambda>s m. snd (add s m True)) st data"

text \<open>
  The cache can take every record of a response without evicting: it is unbounded
  or has that many free places, and none of the records is cached yet.
\<close>

definition has_room :: "store \<Rightarrow> raw_message list \<Rightarrow> bool" where
  "has_room st data =
     ((messageCacheMaxSize st < 0 \<or> int (length (entries st) + length data) \<le> messageCacheMaxSize st) \<and>
      list_all (\<lambda>m. get st (raw_id m) = None) data)"

text \<open>
  The reference \<^verbatim>\<open>add\<close> returns for each record of a response, when the records are
  handed to it one after the other.
\<close>

fun add_refs :: "store \<Rightarrow> raw_message list \<Rightarrow> ref list" where
  "add_refs st [] = []"
| "add_refs st (m # ms) = (case add st m True of (r, st1) \<Rightarrow> r # add_refs st1 ms)"

text \<open>
  What a store is at all times, short of a maximum lowered while the cache is full:
  the keys of the map are distinct, every reference it holds points at an object of
  the heap, and a positive maximum bounds the size.
\<close>

definition consistent :: "store \<Rightarrow> bool" where
  "consistent st =
     (distinct (keys (entries st)) \<and>
      list_all (\<lambda>(k, r). r < length (heap st)) (entries st) \<and>
      (messageCacheMaxSize st > 0 \<longrightarrow> int (length (entries st)) \<le> messageCacheMaxSize st))"

text \<open>
  The object \<open>r\<close> is the entity of record \<open>m\<close> after a fetch that led from \<open>st\<close> to
  \<open>st'\<close>: either an object that existed before, and then the very object that was
  cached under the record's identifier, its content untouched; or a new object,
  built from the record for the store's channel.
\<close>

definition entity_for :: "store \<Rightarrow> store \<Rightarrow> raw_message \<Rightarrow> ref \<Rightarrow> bool" where
  "entity_for st st' m r =
     (r < length (heap st') \<and>
      (if r < length (heap st)
       then get st (raw_id m) = Some r \<and> heap st' ! r = heap st ! r
       else heap st' ! r = Message (channel st) m))"

text \<open>The entries of a collection whose objects did not exist in \<open>st\<close>.\<close>

definition fresh_entries :: "store \<Rightarrow> collection \<Rightarrow> collection" where
  "fresh_entries st messages = filter (\<lambda>(k, r). length (heap st) \<le> r) messages"

text \<open>A queue cut from its oldest end down to a positive maximum; no cut otherwise.\<close>

definition cut_to_max :: "int \<Rightarrow> collection \<Rightarrow> collection" where
  "cut_to_max mx es = (if mx > 0 then drop (length es - nat mx) es else es)"

text \<open>
  What a batch fetch owes its caller for the response \<open>data\<close>, from the store \<open>st\<close> in
  which the request has been sent.
  \<^item> The collection is keyed by the identifiers of the records, in the order of the
    response, and maps each of them to the reference \<^verbatim>\<open>add\<close> returned for that record.
  \<^item> The store is the one in which the records have been added in that order; the
    objects that existed before are where and what they were.
  \<^item> From a consistent store, every value of the collection is the entity of its
    record, and the cache is unchanged when the maximum is 0 and is otherwise the old
    cache followed by the new entities of the collection in response order, cut from
    the oldest end to the maximum.
  \<^item> Where the cache has room for the whole response, the records are appended to
    the cache in response order as new objects, the collection holding the very same
    references.
\<close>

definition in_response_order ::
  "store \<Rightarrow> raw_message list \<Rightarrow> (transport_error + fetch_result) \<times> store \<Rightarrow> bool" where
  "in_response_order st data out =
     (case fst out of
        Inr (Many messages) \<Rightarrow>
          keys messages = map raw_id data \<and>
          map snd messages = add_refs st data \<and>
          snd out = add_in_order st data \<and>
          take (length (heap st)) (heap (snd out)) = heap st \<and>
          (consistent st \<longrightarrow>
             list_all2 (entity_for st (snd out)) data (map snd messages) \<and>
             entries (snd out) =
               (if messageCacheMaxSize st = 0 then entries st
                else cut_to_max (messageCacheMaxSize st) (entries st @ fresh_entries st messages))) \<and>
          (has_room st data \<longrightarrow>
             entries (snd out) = entries st @ messages \<and>
             heap (snd out) = heap st @ map (Message (channel st)) data \<and>
             map snd messages = [length (heap st)..<length (heap st) + length data])
      | _ \<Rightarrow> False)"

subsection \<open>Concrete stores and transports\<close>

definition new_store :: "int \<Rightarrow> store" where
  "new_store n = \<lparr>messageCacheMaxSize = n, channel = ''general'', entries = [], heap = [], requests = []\<rparr>"

definition raw :: "snowflake \<Rightarrow> string \<Rightarrow> raw_message" where
  "raw i c = \<lparr>raw_id = i, raw_content = c\<rparr>"

text \<open>A remote service holding three messages, the newest first in a listing.\<close>

definition remote :: api where
  "remote = \<lparr>
     get_message = (\<lambda>ch i. if i = ''m1'' then Inr (raw ''m1'' ''edited'') else Inl (HTTPError 404)),
     get_messages = (\<lambda>ch q. Inr [raw ''m3'' ''c'', raw ''m2'' ''b'', raw ''m1'' ''a'']),
     get_pins = (\<lambda>ch. Inr [raw ''m2'' ''b''])\<rparr>"

text \<open>A store with room for five messages, after a first listing.\<close>

definition warm :: store where
  "warm = snd (fetch remote (new_store 5) Undefined False)"

text \<open>A store with room for three messages that has fetched \<open>m1\<close> alone.\<close>

definition seeded :: store where
  "seeded = snd (fetch remote (new_store 3) (Str ''m1'') False)"

text \<open>A remote service whose listing names the same identifier twice.\<close>

definition repeating :: api where
  "repeating = \<lparr>
     get_message = (\<lambda>ch i. Inl (HTTPError 404)),
     get_messages = (\<lambda>ch q. Inr [raw ''m1'' ''a'', raw ''m1'' ''b'']),
     get_pins = (\<lambda>ch. Inr [])\<rparr>"

definition offline :: api where
  "offline = \<lparr>
     get_message = (\<lambda>ch i. Inl NetworkError),
     get_messages = (\<lambda>ch q. Inl NetworkError),
     get_pins = (\<lambda>ch. Inl NetworkError)\<rparr>"

section \<open>Properties\<close>

subsection \<open>The map operations\<close>

lemma length_Collection_set_le: "length (Collection_set k v es) \<le> Suc (length es)"
  by (induction es) auto

lemma Collection_delete_firstKey: "firstKey es = Some k \<Longrightarrow> Collection_delete k es = tl es"
  by (cases es) auto

lemma keys_Collection_set:
  "keys (Collection_set k v es) = (if k \<in> set (keys es) then keys es else keys es @ [k])"
  by (induction es) (force simp: keys_def)+

lemma length_keys: "length (keys es) = length es"
  by (simp add: keys_def)

lemma Collection_set_fresh: "k \<notin> set (keys es) \<Longrightarrow> Collection_set k v es = es @ [(k, v)]"
  by (induction es) (auto simp: keys_def)

lemma length_Collection_set_present:
  "k \<in> set (keys es) \<Longrightarrow> length (Collection_set k v es) = length es"
  using keys_Collection_set [of k v es] length_keys [of "Collection_set k v es"] length_keys [of es]
  by simp

lemma Collection_get_set_same: "Collection_get (Collection_set k v es) k = Some v"
  by (induction es) auto

lemma Collection_get_set_other:
  "k' \<noteq> k \<Longrightarrow> Collection_get (Collection_set k v es) k' = Collection_get es k'"
  by (induction es) auto

lemma Collection_get_None_iff: "Collection_get es k = None \<longleftrightarrow> k \<notin> set (keys es)"
  by (induction es) (force simp: keys_def split: if_splits)+

subsection \<open>The capacity bound\<close>

lemma MessageStore_set_frame:
  "messageCacheMaxSize (MessageStore_set st k v) = messageCacheMaxSize st"
  "channel (MessageStore_set st k v) = channel st"
  "heap (MessageStore_set st k v) = heap st"
  "requests (MessageStore_set st k v) = requests st"
  by (simp_all add: MessageStore_set_def MessageStore_delete_def Let_def split: option.splits)

lemma MessageStore_set_bound:
  assumes "0 < messageCacheMaxSize st" "int (length (entries st)) \<le> messageCacheMaxSize st"
  shows "int (length (entries (MessageStore_set st k v))) \<le> messageCacheMaxSize st"
proof (cases "int (length (entries st)) \<ge> messageCacheMaxSize st")
  case True
  with assms obtain e es where es: "entries st = e # es" by (cases "entries st") auto
  obtain k0 v0 where e: "e = (k0, v0)" by (cases e)
  have "length (Collection_set k v es) \<le> Suc (length es)" by (rule length_Collection_set_le)
  with True assms es e show ?thesis
    by (simp add: MessageStore_set_def MessageStore_delete_def Let_def)
next
  case False
  have "length (Collection_set k v (entries st)) \<le> Suc (length (entries st))"
    by (rule length_Collection_set_le)
  with False assms show ?thesis
    by (simp add: MessageStore_set_def Let_def)
qed

lemma MessageStore_set_disabled: "messageCacheMaxSize st = 0 \<Longrightarrow> MessageStore_set st k v = st"
  by (simp add: MessageStore_set_def)

lemma set_all_frame: "messageCacheMaxSize (set_all st kvs) = messageCacheMaxSize st"
  by (induction st kvs rule: set_all.induct) (simp_all add: MessageStore_set_frame)

lemma set_all_bound:
  "0 < messageCacheMaxSize st \<Longrightarrow> int (length (entries st)) \<le> messageCacheMaxSize st \<Longrightarrow>
   int (length (entries (set_all st kvs))) \<le> messageCacheMaxSize st"
proof (induction st kvs rule: set_all.induct)
  case (1 st)
  then show ?case by simp
next
  case (2 st k v kvs)
  then show ?case
    using MessageStore_set_bound [of st k v] by (simp add: MessageStore_set_frame)
qed

lemma set_all_disabled: "messageCacheMaxSize st = 0 \<Longrightarrow> set_all st kvs = st"
  by (induction st kvs rule: set_all.induct) (simp_all add: MessageStore_set_disabled)

text \<open>
  C1. Capacity invariant of \<^verbatim>\<open>set\<close>: starting from an empty cache, for any sequence of
  \<^verbatim>\<open>set\<close> calls and after each of them (after the first \<open>j\<close> calls, for every \<open>j\<close>),
  the cache holds at most \<^verbatim>\<open>messageCacheMaxSize\<close> entries when that maximum is
  positive, and holds nothing when the maximum is 0.
\<close>

theorem set_capacity_invariant:
  assumes "entries st = []"
  shows "(0 < messageCacheMaxSize st \<longrightarrow>
            int (length (entries (set_all st (take j kvs)))) \<le> messageCacheMaxSize st) \<and>
         (messageCacheMaxSize st = 0 \<longrightarrow> length (entries (set_all st (take j kvs))) = 0)"
  using assms set_all_bound [of st "take j kvs"] set_all_disabled [of st "take j kvs"] by auto

theorem set_capacity_invariant_witness:
  "entries (new_store 2) = [] \<and> 0 < messageCacheMaxSize (new_store 2) \<and>
   int (length (entries (set_all (new_store 2) (take 3 [(''a'', 0), (''b'', 1), (''c'', 2)])))) \<le> 2 \<and>
   entries (new_store 0) = [] \<and> messageCacheMaxSize (new_store 0) = 0 \<and>
   length (entries (set_all (new_store 0) (take 3 [(''a'', 0), (''b'', 1), (''c'', 2)]))) = 0"
  using set_capacity_invariant [of "new_store 2" 3 "[(''a'', 0), (''b'', 1), (''c'', 2)]"]
        set_capacity_invariant [of "new_store 0" 3 "[(''a'', 0), (''b'', 1), (''c'', 2)]"]
  by (simp add: new_store_def)

subsection \<open>Eviction order and update in place\<close>

lemma set_all_snoc: "set_all st (kvs @ [(k, v)]) = MessageStore_set (set_all st kvs) k v"
  by (induction st kvs rule: set_all.induct) simp_all

lemma MessageStore_set_append:
  assumes "messageCacheMaxSize st \<noteq> 0"
      and "\<not> (int (length (entries st)) \<ge> messageCacheMaxSize st \<and> messageCacheMaxSize st > 0)"
      and "k \<notin> set (keys (entries st))"
  shows "entries (MessageStore_set st k v) = entries st @ [(k, v)]"
  using assms by (auto simp: MessageStore_set_def Let_def Collection_set_fresh)

lemma MessageStore_set_evict:
  assumes "0 < messageCacheMaxSize st"
      and "int (length (entries st)) \<ge> messageCacheMaxSize st"
      and "k \<notin> set (keys (entries st))"
  shows "entries (MessageStore_set st k v) = tl (entries st) @ [(k, v)]"
proof -
  from assms obtain e es where es: "entries st = e # es" by (cases "entries st") auto
  obtain k0 v0 where e: "e = (k0, v0)" by (cases e)
  from assms(3) es e have "k \<notin> set (keys es)" by (simp add: keys_def)
  then have "Collection_set k v es = es @ [(k, v)]" by (rule Collection_set_fresh)
  with assms es e show ?thesis
    by (simp add: MessageStore_set_def MessageStore_delete_def Let_def)
qed

lemma set_all_last_entries:
  assumes "entries st = []" "0 < messageCacheMaxSize st" "distinct (map fst kvs)"
  shows "entries (set_all st kvs) = drop (length kvs - nat (messageCacheMaxSize st)) kvs"
  using assms(3)
proof (induction kvs rule: rev_induct)
  case Nil
  then show ?case using assms(1) by simp
next
  case (snoc kv kvs)
  obtain k v where kv: "kv = (k, v)" by (cases kv)
  let ?N = "nat (messageCacheMaxSize st)"
  let ?s = "set_all st kvs"
  from snoc have IH: "entries ?s = drop (length kvs - ?N) kvs" by simp
  have mx: "messageCacheMaxSize ?s = messageCacheMaxSize st" by (rule set_all_frame)
  from snoc.prems kv have "k \<notin> set (map fst kvs)" by simp
  then have "k \<notin> set (map fst (drop (length kvs - ?N) kvs))"
    by (metis in_set_dropD drop_map)
  with IH have fresh: "k \<notin> set (keys (entries ?s))" by (simp add: keys_def)
  show ?case
  proof (cases "length kvs \<ge> ?N")
    case True
    with IH have len: "length (entries ?s) = ?N" by simp
    with assms(2) mx have "int (length (entries ?s)) \<ge> messageCacheMaxSize ?s" by simp
    with assms(2) mx fresh have "entries (MessageStore_set ?s k v) = tl (entries ?s) @ [(k, v)]"
      by (intro MessageStore_set_evict) simp_all
    also have "tl (entries ?s) = drop (Suc (length kvs - ?N)) kvs"
      using IH by (simp add: drop_Suc tl_drop)
    finally show ?thesis using True assms(2) kv
      by (simp add: set_all_snoc Suc_diff_le)
  next
    case False
    with IH have ent: "entries ?s = kvs" by simp
    with False assms(2) mx fresh have "entries (MessageStore_set ?s k v) = entries ?s @ [(k, v)]"
      by (intro MessageStore_set_append) auto
    with ent False kv show ?thesis by (simp add: set_all_snoc)
  qed
qed

text \<open>
  C2. Eviction order of \<^verbatim>\<open>set\<close>: with a maximum of \<open>n > 0\<close> and an empty cache, setting
  \<open>n + 1\<close> distinct identifiers in order leaves exactly the last \<open>n\<close> of them, in
  their order and with their values; the first one, the oldest, is gone.
\<close>

theorem set_eviction_order:
  assumes "entries st = []" "messageCacheMaxSize st = int n" "0 < n"
      and "length kvs = n + 1" "distinct (map fst kvs)"
  shows "entries (set_all st kvs) = tl kvs \<and>
         keys (entries (set_all st kvs)) = tl (map fst kvs) \<and>
         get (set_all st kvs) (fst (hd kvs)) = None"
proof -
  from assms have e: "entries (set_all st kvs) = drop 1 kvs"
    using set_all_last_entries [of st kvs] by simp
  then have e': "entries (set_all st kvs) = tl kvs" by (simp add: drop_Suc)
  from assms(4) obtain x xs where kvs: "kvs = x # xs" by (cases kvs) auto
  with assms(5) have "fst x \<notin> set (keys xs)" by (simp add: keys_def)
  with e' kvs have "get (set_all st kvs) (fst (hd kvs)) = None"
    by (simp add: get_def Collection_get_None_iff)
  with e' show ?thesis by (simp add: keys_def map_tl)
qed

theorem set_eviction_order_witness:
  "entries (new_store 2) = [] \<and> messageCacheMaxSize (new_store 2) = int 2 \<and> (0::nat) < 2 \<and>
   length [(''k1'', 0::nat), (''k2'', 1), (''k3'', 2)] = 2 + 1 \<and>
   distinct (map fst [(''k1'', 0::nat), (''k2'', 1), (''k3'', 2)]) \<and>
   entries (set_all (new_store 2) [(''k1'', 0), (''k2'', 1), (''k3'', 2)]) = [(''k2'', 1), (''k3'', 2)] \<and>
   get (set_all (new_store 2) [(''k1'', 0), (''k2'', 1), (''k3'', 2)]) ''k1'' = None"
  using set_eviction_order [of "new_store 2" 2 "[(''k1'', 0), (''k2'', 1), (''k3'', 2)]"]
  by (simp add: new_store_def)

text \<open>
  C3, amended. Update in place: in a cache that is below its maximum (or unbounded,
  the maximum being negative), \<^verbatim>\<open>set(id, e1)\<close> then \<^verbatim>\<open>set(id, e2)\<close> for an identifier
  already present leaves the size unchanged, leaves \<^verbatim>\<open>get(id)\<close> equal to \<open>e2\<close>, keeps
  every key at its position and every other entry as it was.
\<close>

theorem set_update_in_place:
  assumes "k \<in> set (keys (entries st))"
      and "messageCacheMaxSize st < 0 \<or> int (length (entries st)) < messageCacheMaxSize st"
  shows "length (entries (MessageStore_set (MessageStore_set st k e1) k e2)) = length (entries st) \<and>
         get (MessageStore_set (MessageStore_set st k e1) k e2) k = Some e2 \<and>
         keys (entries (MessageStore_set (MessageStore_set st k e1) k e2)) = keys (entries st) \<and>
         (\<forall>k'. k' \<noteq> k \<longrightarrow> get (MessageStore_set (MessageStore_set st k e1) k e2) k' = get st k')"
proof -
  have one: "entries (MessageStore_set s k e) = Collection_set k e (entries s)"
    if "messageCacheMaxSize s < 0 \<or> int (length (entries s)) < messageCacheMaxSize s" for s e
    using that by (auto simp: MessageStore_set_def Let_def)
  let ?s1 = "MessageStore_set st k e1"
  have e1: "entries ?s1 = Collection_set k e1 (entries st)" using assms(2) by (rule one)
  have "length (entries ?s1) = length (entries st)"
    using assms(1) e1 by (simp add: length_Collection_set_present)
  with assms(2) have "messageCacheMaxSize ?s1 < 0 \<or> int (length (entries ?s1)) < messageCacheMaxSize ?s1"
    by (simp add: MessageStore_set_frame)
  then have e2: "entries (MessageStore_set ?s1 k e2) = Collection_set k e2 (Collection_set k e1 (entries st))"
    using e1 one by simp
  from assms(1) have k1: "keys (Collection_set k e1 (entries st)) = keys (entries st)"
    by (simp add: keys_Collection_set)
  with assms(1) have k2: "keys (Collection_set k e2 (Collection_set k e1 (entries st))) = keys (entries st)"
    by (simp add: keys_Collection_set)
  have "length (Collection_set k e2 (Collection_set k e1 (entries st))) = length (entries st)"
    using k2 length_keys by metis
  with e2 k2 show ?thesis
    by (simp add: get_def Collection_get_set_same Collection_get_set_other)
qed

theorem set_update_in_place_witness:
  "''a'' \<in> set (keys (entries (set_all (new_store 3) [(''a'', 0), (''b'', 1)]))) \<and>
   int (length (entries (set_all (new_store 3) [(''a'', 0), (''b'', 1)]))) < messageCacheMaxSize (set_all (new_store 3) [(''a'', 0), (''b'', 1)]) \<and>
   entries (MessageStore_set (MessageStore_set (set_all (new_store 3) [(''a'', 0), (''b'', 1)]) ''a'' 2) ''a'' 3)
     = [(''a'', 3), (''b'', 1)]"
  using set_update_in_place [of "''a''" "set_all (new_store 3) [(''a'', 0), (''b'', 1)]" 2 3]
  by (simp add: new_store_def MessageStore_set_def MessageStore_delete_def keys_def get_def)

text \<open>
  C3 as stated fails on a full cache: \<^verbatim>\<open>set\<close> evicts the oldest entry before it looks
  at the key. With a maximum of 2 and the cache \<open>[a, b]\<close>, setting \<open>b\<close> twice evicts
  \<open>a\<close> and leaves one entry; setting \<open>a\<close> evicts \<open>a\<close> itself and appends it again,
  behind \<open>b\<close>.
\<close>

theorem set_update_in_place_counterexample:
  "''b'' \<in> set (keys (entries (set_all (new_store 2) [(''a'', 0), (''b'', 1)]))) \<and>
   length (entries (set_all (new_store 2) [(''a'', 0), (''b'', 1)])) = 2 \<and>
   length (entries (MessageStore_set (MessageStore_set (set_all (new_store 2) [(''a'', 0), (''b'', 1)]) ''b'' 2) ''b'' 3)) = 1 \<and>
   get (MessageStore_set (MessageStore_set (set_all (new_store 2) [(''a'', 0), (''b'', 1)]) ''b'' 2) ''b'' 3) ''a'' = None \<and>
   keys (entries (MessageStore_set (set_all (new_store 2) [(''a'', 0), (''b'', 1)]) ''a'' 2)) = [''b'', ''a'']"
  by (simp add: new_store_def MessageStore_set_def MessageStore_delete_def keys_def get_def)

subsection \<open>The single-item fetch\<close>

lemma send_frame:
  "messageCacheMaxSize (send st rq) = messageCacheMaxSize st"
  "channel (send st rq) = channel st"
  "entries (send st rq) = entries st"
  "heap (send st rq) = heap st"
  "requests (send st rq) = requests st @ [rq]"
  "get (send st rq) k = get st k"
  by (simp_all add: send_def get_def)

lemma add_cached: "get st (raw_id d) = Some r \<Longrightarrow> add st d c = (r, st)"
  by (simp add: add_def DataStore_add_def)

lemma add_fresh:
  "get st (raw_id d) = None \<Longrightarrow>
   add st d True =
     (length (heap st),
      MessageStore_set (st\<lparr>heap := heap st @ [Message (channel st) d]\<rparr>) (raw_id d) (length (heap st)))"
  by (simp add: add_def DataStore_add_def Let_def)

lemma add_frame:
  "messageCacheMaxSize (snd (add st d c)) = messageCacheMaxSize st"
  "channel (snd (add st d c)) = channel st"
  "requests (snd (add st d c)) = requests st"
  by (simp_all add: add_def DataStore_add_def Let_def MessageStore_set_frame split: option.splits)

lemma issued_send: "issued st (send st rq) = [rq]"
  by (simp add: issued_def send_def)


lemma warm_eq: "warm = \<lparr>messageCacheMaxSize = 5, channel = ''general'',
     entries = [(''m3'', 0), (''m2'', 1), (''m1'', 2)],
     heap = [Message ''general'' (raw ''m3'' ''c''), Message ''general'' (raw ''m2'' ''b''),
             Message ''general'' (raw ''m1'' ''a'')],
     requests = [GetMessages ''general'' (Opts empty_options)]\<rparr>"
  by (simp add: warm_def fetch_def fetchMany_def default_options_def remote_def new_store_def
      send_def add_def DataStore_add_def get_def raw_def MessageStore_set_def Let_def)


subsection \<open>The batch fetch\<close>

lemma keys_append: "keys (xs @ ys) = keys xs @ keys ys"
  by (simp add: keys_def)

lemma keys_accumulate:
  "distinct (keys acc @ map raw_id ms) \<Longrightarrow>
   keys (fst (accumulate st acc ms)) = keys acc @ map raw_id ms"
proof (induction ms arbitrary: st acc)
  case Nil
  then show ?case by simp
next
  case (Cons m ms)
  obtain r st1 where a: "add st m True = (r, st1)" by (cases "add st m True")
  from Cons.prems have fresh: "raw_id m \<notin> set (keys acc)" by auto
  then have k: "keys (Collection_set (raw_id m) r acc) = keys acc @ [raw_id m]"
    by (simp add: keys_Collection_set)
  with Cons.prems have "distinct (keys (Collection_set (raw_id m) r acc) @ map raw_id ms)"
    by auto
  from Cons.IH [OF this] a k show ?case by simp
qed

lemma snd_accumulate: "snd (accumulate st acc ms) = add_in_order st ms"
  unfolding add_in_order_def
proof (induction ms arbitrary: st acc)
  case Nil
  then show ?case by simp
next
  case (Cons m ms)
  then show ?case by (cases "add st m True") simp
qed

lemma MessageStore_set_room:
  assumes "messageCacheMaxSize st < 0 \<or> int (length (entries st)) < messageCacheMaxSize st"
      and "k \<notin> set (keys (entries st))"
  shows "MessageStore_set st k v = st\<lparr>entries := entries st @ [(k, v)]\<rparr>"
  using assms by (auto simp: MessageStore_set_def Let_def Collection_set_fresh)

lemma accumulate_room:
  assumes "distinct (map raw_id ms)" "has_room st ms" "set (map raw_id ms) \<inter> set (keys acc) = {}"
  shows "accumulate st acc ms =
          (acc @ zip (map raw_id ms) [length (heap st)..<length (heap st) + length ms],
           st\<lparr>entries := entries st @ zip (map raw_id ms) [length (heap st)..<length (heap st) + length ms],
              heap := heap st @ map (Message (channel st)) ms\<rparr>)"
  using assms
proof (induction ms arbitrary: st acc)
  case Nil
  then show ?case by simp
next
  case (Cons m ms)
  let ?h = "length (heap st)"
  let ?st1 = "st\<lparr>heap := heap st @ [Message (channel st) m], entries := entries st @ [(raw_id m, ?h)]\<rparr>"
  from Cons.prems(2) have none: "get st (raw_id m) = None"
    and rest: "list_all (\<lambda>m. get st (raw_id m) = None) ms"
    and cap: "messageCacheMaxSize st < 0 \<or> int (length (entries st) + Suc (length ms)) \<le> messageCacheMaxSize st"
    by (simp_all add: has_room_def)
  from none have fresh: "raw_id m \<notin> set (keys (entries st))"
    by (simp add: get_def Collection_get_None_iff)
  from cap have cap1: "messageCacheMaxSize st < 0 \<or> int (length (entries st)) < messageCacheMaxSize st"
    by auto
  have a: "add st m True = (?h, ?st1)"
    using add_fresh [OF none] cap1 fresh
    by (simp add: MessageStore_set_room)
  from Cons.prems(3) have "raw_id m \<notin> set (keys acc)" by auto
  then have acc: "Collection_set (raw_id m) ?h acc = acc @ [(raw_id m, ?h)]"
    by (rule Collection_set_fresh)
  have d: "distinct (map raw_id ms)" using Cons.prems(1) by simp
  have "get ?st1 (raw_id m') = None" if "m' \<in> set ms" for m'
  proof -
    from that rest have "raw_id m' \<notin> set (keys (entries st))"
      by (simp add: list_all_iff get_def Collection_get_None_iff)
    moreover from Cons.prems(1) have "raw_id m \<notin> raw_id ` set ms" by simp
    with that have "raw_id m' \<noteq> raw_id m" by (metis imageI)
    ultimately show ?thesis
      by (simp add: get_def Collection_get_None_iff keys_append) (simp add: keys_def)
  qed
  then have "list_all (\<lambda>m'. get ?st1 (raw_id m') = None) ms"
    by (simp add: list_all_iff)
  with cap have room: "has_room ?st1 ms" by (auto simp: has_room_def)
  have dis: "set (map raw_id ms) \<inter> set (keys (acc @ [(raw_id m, ?h)])) = {}"
    using Cons.prems(1,3) by (auto simp: keys_def)
  have up: "[?h..<?h + Suc (length ms)] = ?h # [Suc ?h..<Suc ?h + length ms]"
    by (simp add: upt_rec)
  show ?case
    using Cons.IH [OF d room dis] a acc up by simp
qed

lemma length_add_refs: "length (add_refs st ms) = length ms"
  by (induction ms arbitrary: st) (simp_all split: prod.splits)

lemma fst_accumulate:
  "distinct (keys acc @ map raw_id ms) \<Longrightarrow>
   fst (accumulate st acc ms) = acc @ zip (map raw_id ms) (add_refs st ms)"
proof (induction ms arbitrary: st acc)
  case Nil
  then show ?case by simp
next
  case (Cons m ms)
  obtain r st1 where a: "add st m True = (r, st1)" by (cases "add st m True")
  from Cons.prems have fresh: "raw_id m \<notin> set (keys acc)" by auto
  then have c: "Collection_set (raw_id m) r acc = acc @ [(raw_id m, r)]"
    by (rule Collection_set_fresh)
  with Cons.prems have "distinct (keys (Collection_set (raw_id m) r acc) @ map raw_id ms)"
    by (auto simp: keys_def)
  from Cons.IH [OF this] a c show ?case by simp
qed

lemma add_in_order_Cons: "add_in_order st (m # ms) = add_in_order (snd (add st m True)) ms"
  by (simp add: add_in_order_def)

lemma heap_add:
  "heap (snd (add st m True)) =
     (case get st (raw_id m) of Some r \<Rightarrow> heap st | None \<Rightarrow> heap st @ [Message (channel st) m])"
  by (simp add: add_def DataStore_add_def Let_def MessageStore_set_frame split: option.splits)

lemma heap_add_in_order: "\<exists>ext. heap (add_in_order st ms) = heap st @ ext"
proof (induction ms arbitrary: st)
  case Nil
  then show ?case by (simp add: add_in_order_def)
next
  case (Cons m ms)
  from Cons.IH [of "snd (add st m True)"] obtain ext
    where "heap (add_in_order st (m # ms)) = heap (snd (add st m True)) @ ext"
    by (auto simp: add_in_order_Cons)
  then show ?case by (simp add: heap_add split: option.splits)
qed

lemma Collection_get_Some_iff:
  "distinct (keys es) \<Longrightarrow> Collection_get es k = Some v \<longleftrightarrow> (k, v) \<in> set es"
  by (induction es) (force simp: keys_def)+

lemma set_fresh_cut:
  assumes "messageCacheMaxSize st \<noteq> 0"
      and "messageCacheMaxSize st > 0 \<longrightarrow> int (length (entries st)) \<le> messageCacheMaxSize st"
      and "k \<notin> set (keys (entries st))"
  shows "entries (MessageStore_set st k v) = cut_to_max (messageCacheMaxSize st) (entries st @ [(k, v)])"
proof (cases "0 < messageCacheMaxSize st \<and> int (length (entries st)) \<ge> messageCacheMaxSize st")
  case True
  with assms(2) have len: "int (length (entries st)) = messageCacheMaxSize st" by simp
  with True have ne: "entries st \<noteq> []" by auto
  from True assms(3) have "entries (MessageStore_set st k v) = tl (entries st) @ [(k, v)]"
    by (intro MessageStore_set_evict) simp_all
  moreover from len True have "Suc (length (entries st)) - nat (messageCacheMaxSize st) = 1"
    by auto
  ultimately show ?thesis using True ne
    by (cases "entries st") (simp_all add: cut_to_max_def)
next
  case False
  with assms have "entries (MessageStore_set st k v) = entries st @ [(k, v)]"
    by (intro MessageStore_set_append) auto
  moreover from False assms(2)
  have "messageCacheMaxSize st > 0 \<Longrightarrow> Suc (length (entries st)) - nat (messageCacheMaxSize st) = 0"
    by auto
  ultimately show ?thesis by (auto simp: cut_to_max_def)
qed

lemma keys_drop: "keys (drop d es) = drop d (keys es)"
  by (simp add: keys_def drop_map)

lemma cut_to_max_drop: "\<exists>d. cut_to_max mx es = drop d es"
  by (metis cut_to_max_def drop0)

lemma length_cut_to_max: "0 < mx \<Longrightarrow> int (length (cut_to_max mx es)) \<le> mx"
  by (auto simp: cut_to_max_def)

lemma consistent_get_valid:
  "consistent st \<Longrightarrow> get st k = Some r \<Longrightarrow> r < length (heap st)"
  by (auto simp: consistent_def get_def Collection_get_Some_iff list_all_iff)

lemma add_miss:
  assumes "consistent st" "get st (raw_id m) = None"
  shows "fst (add st m True) = length (heap st)"
    and "heap (snd (add st m True)) = heap st @ [Message (channel st) m]"
    and "entries (snd (add st m True)) =
           (if messageCacheMaxSize st = 0 then entries st
            else cut_to_max (messageCacheMaxSize st) (entries st @ [(raw_id m, length (heap st))]))"
proof -
  let ?st1 = "st\<lparr>heap := heap st @ [Message (channel st) m]\<rparr>"
  have a: "add st m True = (length (heap st), MessageStore_set ?st1 (raw_id m) (length (heap st)))"
    using assms(2) by (simp add: add_def DataStore_add_def Let_def)
  show "fst (add st m True) = length (heap st)" using a by simp
  show "heap (snd (add st m True)) = heap st @ [Message (channel st) m]"
    using a by (simp add: MessageStore_set_frame)
  from assms(2) have fresh: "raw_id m \<notin> set (keys (entries ?st1))"
    by (simp add: get_def Collection_get_None_iff)
  from assms(1) have b: "messageCacheMaxSize ?st1 > 0 \<longrightarrow> int (length (entries ?st1)) \<le> messageCacheMaxSize ?st1"
    by (simp add: consistent_def)
  show "entries (snd (add st m True)) =
           (if messageCacheMaxSize st = 0 then entries st
            else cut_to_max (messageCacheMaxSize st) (entries st @ [(raw_id m, length (heap st))]))"
  proof (cases "messageCacheMaxSize st = 0")
    case True
    then show ?thesis using a by (simp add: MessageStore_set_def)
  next
    case False
    then have "messageCacheMaxSize ?st1 \<noteq> 0" by simp
    from set_fresh_cut [OF this b fresh] False a show ?thesis by simp
  qed
qed

lemma entries_add_subset:
  assumes "consistent st"
  shows "set (entries (snd (add st m True))) \<subseteq> insert (raw_id m, length (heap st)) (set (entries st))"
proof (cases "get st (raw_id m)")
  case None
  obtain d where "cut_to_max (messageCacheMaxSize st) (entries st @ [(raw_id m, length (heap st))])
                   = drop d (entries st @ [(raw_id m, length (heap st))])"
    using cut_to_max_drop by blast
  then have "set (cut_to_max (messageCacheMaxSize st) (entries st @ [(raw_id m, length (heap st))]))
               \<subseteq> insert (raw_id m, length (heap st)) (set (entries st))"
    using set_drop_subset [of d "entries st @ [(raw_id m, length (heap st))]"] by auto
  with add_miss(3) [OF assms None] show ?thesis by auto
next
  case (Some r)
  then show ?thesis by (auto simp: add_cached)
qed

lemma consistent_add:
  assumes "consistent st"
  shows "consistent (snd (add st m True))"
proof (cases "get st (raw_id m)")
  case (Some r)
  with assms show ?thesis by (simp add: add_cached)
next
  case None
  let ?s = "snd (add st m True)"
  let ?new = "entries st @ [(raw_id m, length (heap st))]"
  from None have fresh: "raw_id m \<notin> set (keys (entries st))"
    by (simp add: get_def Collection_get_None_iff)
  with assms have dn: "distinct (keys ?new)" by (simp add: consistent_def keys_def)
  obtain d where d: "cut_to_max (messageCacheMaxSize st) ?new = drop d ?new"
    using cut_to_max_drop by blast
  have "distinct (keys (drop d ?new))"
    unfolding keys_drop using dn by (rule distinct_drop)
  with d have "distinct (keys (cut_to_max (messageCacheMaxSize st) ?new))" by simp
  with assms have "distinct (keys (entries ?s))"
    unfolding add_miss(3) [OF assms None] by (simp add: consistent_def)
  moreover have "list_all (\<lambda>(k, r). r < length (heap ?s)) (entries ?s)"
    using entries_add_subset [OF assms, of m] assms add_miss(2) [OF assms None]
    by (fastforce simp: list_all_iff consistent_def)
  moreover have "messageCacheMaxSize ?s > 0 \<longrightarrow> int (length (entries ?s)) \<le> messageCacheMaxSize ?s"
    using add_miss(3) [OF assms None] length_cut_to_max [of "messageCacheMaxSize st" ?new]
    by (auto simp: add_frame)
  ultimately show ?thesis by (simp add: consistent_def)
qed

lemma consistent_add_in_order: "consistent st \<Longrightarrow> consistent (add_in_order st ms)"
  by (induction ms arbitrary: st) (simp_all add: add_in_order_def consistent_add)

lemma get_add_other:
  assumes "consistent st" "k \<noteq> raw_id m" "get (snd (add st m True)) k = Some r"
  shows "get st k = Some r"
proof -
  from consistent_add [OF assms(1), of m] assms(3)
  have "(k, r) \<in> set (entries (snd (add st m True)))"
    by (simp add: consistent_def get_def Collection_get_Some_iff)
  with entries_add_subset [OF assms(1), of m] assms(2) have "(k, r) \<in> set (entries st)" by auto
  with assms(1) show ?thesis by (simp add: consistent_def get_def Collection_get_Some_iff)
qed

lemma entity_for_step:
  assumes "consistent st" "raw_id m' \<noteq> raw_id m"
      and "entity_for (snd (add st m True)) st' m' r"
      and "heap st' = heap (snd (add st m True)) @ ext"
  shows "entity_for st st' m' r"
proof (cases "get st (raw_id m)")
  case (Some r0)
  with assms(3) show ?thesis by (simp add: add_cached)
next
  case None
  let ?s = "snd (add st m True)"
  let ?h = "length (heap st)"
  have hs: "heap ?s = heap st @ [Message (channel st) m]" by (rule add_miss(2) [OF assms(1) None])
  have ch: "channel ?s = channel st" by (rule add_frame)
  from assms(3) have v: "r < length (heap st')" by (simp add: entity_for_def)
  show ?thesis
  proof (cases "r < length (heap ?s)")
    case True
    with assms(3) have g: "get ?s (raw_id m') = Some r" and e: "heap st' ! r = heap ?s ! r"
      by (simp_all add: entity_for_def)
    from get_add_other [OF assms(1,2) g] have g0: "get st (raw_id m') = Some r" .
    then have "r < ?h" by (rule consistent_get_valid [OF assms(1)])
    with e hs g0 v show ?thesis by (simp add: entity_for_def nth_append)
  next
    case False
    with assms(3) hs ch v show ?thesis by (simp add: entity_for_def)
  qed
qed

lemma add_refs_entities:
  "consistent st \<Longrightarrow> distinct (map raw_id ms) \<Longrightarrow>
   list_all2 (entity_for st (add_in_order st ms)) ms (add_refs st ms)"
proof (induction ms arbitrary: st)
  case Nil
  then show ?case by simp
next
  case (Cons m ms)
  let ?s = "snd (add st m True)"
  let ?st' = "add_in_order st (m # ms)"
  have st': "?st' = add_in_order ?s ms" by (rule add_in_order_Cons)
  have cs: "consistent ?s" using Cons.prems(1) by (rule consistent_add)
  from Cons.prems(2) have d: "distinct (map raw_id ms)" by simp
  from heap_add_in_order [of ?s ms] st' obtain ext where ext: "heap ?st' = heap ?s @ ext" by auto
  have IH: "list_all2 (entity_for ?s ?st') ms (add_refs ?s ms)"
    using Cons.IH [OF cs d] st' by simp
  have tail: "list_all2 (entity_for st ?st') ms (add_refs ?s ms)"
  proof (rule list.rel_mono_strong [OF IH])
    fix m' r assume mr: "m' \<in> set ms" "r \<in> set (add_refs ?s ms)" "entity_for ?s ?st' m' r"
    from Cons.prems(2) have "raw_id m \<notin> raw_id ` set ms" by simp
    with mr(1) have "raw_id m' \<noteq> raw_id m" by (metis imageI)
    from entity_for_step [OF Cons.prems(1) this mr(3) ext] show "entity_for st ?st' m' r" .
  qed
  have head: "entity_for st ?st' m (fst (add st m True))"
  proof (cases "get st (raw_id m)")
    case (Some r0)
    then have a: "add st m True = (r0, st)" by (rule add_cached)
    from consistent_get_valid [OF Cons.prems(1) Some] have "r0 < length (heap st)" .
    with a Some ext show ?thesis by (simp add: entity_for_def nth_append)
  next
    case None
    from add_miss(1,2) [OF Cons.prems(1) None] ext show ?thesis
      by (simp add: entity_for_def nth_append)
  qed
  from head tail show ?case by (simp add: case_prod_beta)
qed

lemma cut_to_max_idem: "cut_to_max mx (cut_to_max mx xs @ ys) = cut_to_max mx (xs @ ys)"
proof (cases "0 < mx")
  case False
  then show ?thesis by (simp add: cut_to_max_def)
next
  case True
  define d where "d = length xs - nat mx"
  have d: "d \<le> length xs" by (simp add: d_def)
  then have a: "drop d xs @ ys = drop d (xs @ ys)" by simp
  have "length (drop d xs @ ys) - nat mx + d = length (xs @ ys) - nat mx"
    using d by (auto simp: d_def)
  then have "drop (length (drop d xs @ ys) - nat mx) (drop d (xs @ ys)) = drop (length (xs @ ys) - nat mx) (xs @ ys)"
    by (simp only: drop_drop)
  with True a show ?thesis by (simp add: cut_to_max_def d_def)
qed

lemma cut_to_max_within: "(0 < mx \<longrightarrow> int (length es) \<le> mx) \<Longrightarrow> cut_to_max mx es = es"
  by (auto simp: cut_to_max_def)

lemma add_refs_not_fresh_index:
  assumes "consistent st" "get st (raw_id m) = None" "distinct (map raw_id (m # ms))"
  shows "\<forall>r \<in> set (add_refs (snd (add st m True)) ms). r \<noteq> length (heap st)"
proof
  fix r assume r: "r \<in> set (add_refs (snd (add st m True)) ms)"
  let ?s = "snd (add st m True)"
  have cs: "consistent ?s" using assms(1) by (rule consistent_add)
  from assms(3) have d: "distinct (map raw_id ms)" by simp
  from add_refs_entities [OF cs d] have l: "list_all2 (entity_for ?s (add_in_order ?s ms)) ms (add_refs ?s ms)" .
  from r obtain i where i: "i < length (add_refs ?s ms)" "add_refs ?s ms ! i = r"
    by (auto simp: in_set_conv_nth)
  with l have e: "entity_for ?s (add_in_order ?s ms) (ms ! i) r" and im: "i < length ms"
    by (auto simp: list_all2_conv_all_nth)
  show "r \<noteq> length (heap st)"
  proof
    assume rh: "r = length (heap st)"
    have hs: "heap ?s = heap st @ [Message (channel st) m]" by (rule add_miss(2) [OF assms(1,2)])
    with rh e have g: "get ?s (raw_id (ms ! i)) = Some r" by (simp add: entity_for_def)
    from assms(3) have "raw_id m \<notin> raw_id ` set ms" by simp
    with im have "raw_id (ms ! i) \<noteq> raw_id m" by (metis imageI nth_mem)
    from get_add_other [OF assms(1) this g] have "get st (raw_id (ms ! i)) = Some r" .
    from consistent_get_valid [OF assms(1) this] rh show False by simp
  qed
qed

lemma entries_add_in_order:
  "consistent st \<Longrightarrow> distinct (map raw_id ms) \<Longrightarrow> messageCacheMaxSize st \<noteq> 0 \<Longrightarrow>
   entries (add_in_order st ms) =
     cut_to_max (messageCacheMaxSize st)
       (entries st @ fresh_entries st (zip (map raw_id ms) (add_refs st ms)))"
proof (induction ms arbitrary: st)
  case Nil
  then show ?case
    by (simp add: add_in_order_def fresh_entries_def cut_to_max_within consistent_def)
next
  case (Cons m ms)
  let ?s = "snd (add st m True)"
  let ?mx = "messageCacheMaxSize st"
  let ?Z = "zip (map raw_id ms) (add_refs ?s ms)"
  have cs: "consistent ?s" using Cons.prems(1) by (rule consistent_add)
  from Cons.prems(2) have d: "distinct (map raw_id ms)" by simp
  have mx: "messageCacheMaxSize ?s = ?mx" by (rule add_frame)
  from Cons.IH [OF cs d] Cons.prems(3) mx
  have IH: "entries (add_in_order st (m # ms)) = cut_to_max ?mx (entries ?s @ fresh_entries ?s ?Z)"
    by (simp add: add_in_order_Cons)
  have z: "zip (map raw_id (m # ms)) (add_refs st (m # ms)) = (raw_id m, fst (add st m True)) # ?Z"
    by (simp add: case_prod_beta)
  show ?case
  proof (cases "get st (raw_id m)")
    case (Some r0)
    then have a: "add st m True = (r0, st)" by (rule add_cached)
    from consistent_get_valid [OF Cons.prems(1) Some] have "r0 < length (heap st)" .
    with a have "fresh_entries st ((raw_id m, fst (add st m True)) # ?Z) = fresh_entries st ?Z"
      by (simp add: fresh_entries_def)
    with IH a z show ?thesis by simp
  next
    case None
    let ?h = "length (heap st)"
    have f: "fst (add st m True) = ?h" by (rule add_miss(1) [OF Cons.prems(1) None])
    have hs: "heap ?s = heap st @ [Message (channel st) m]" by (rule add_miss(2) [OF Cons.prems(1) None])
    have es: "entries ?s = cut_to_max ?mx (entries st @ [(raw_id m, ?h)])"
      using add_miss(3) [OF Cons.prems(1) None] Cons.prems(3) by simp
    have nf: "\<forall>r \<in> set (add_refs ?s ms). r \<noteq> ?h"
      by (rule add_refs_not_fresh_index [OF Cons.prems(1) None Cons.prems(2)])
    have "fresh_entries ?s ?Z = fresh_entries st ?Z"
      unfolding fresh_entries_def
    proof (rule filter_cong [OF refl])
      fix x assume "x \<in> set ?Z"
      then have "snd x \<in> set (add_refs ?s ms)"
        by (metis prod.collapse set_zip_rightD)
      with nf have "snd x \<noteq> ?h" by blast
      with hs show "(case x of (k, r) \<Rightarrow> length (heap ?s) \<le> r) = (case x of (k, r) \<Rightarrow> ?h \<le> r)"
        by (cases x) auto
    qed
    moreover have "fresh_entries st ((raw_id m, ?h) # ?Z) = (raw_id m, ?h) # fresh_entries st ?Z"
      by (simp add: fresh_entries_def)
    ultimately have "entries (add_in_order st (m # ms)) =
        cut_to_max ?mx (cut_to_max ?mx (entries st @ [(raw_id m, ?h)]) @ fresh_entries st ?Z)"
      and "entries st @ fresh_entries st (zip (map raw_id (m # ms)) (add_refs st (m # ms)))
            = (entries st @ [(raw_id m, ?h)]) @ fresh_entries st ?Z"
      using IH es z f by simp_all
    then show ?thesis by (simp only: cut_to_max_idem)
  qed
qed

lemma add_disabled:
  "messageCacheMaxSize st = 0 \<Longrightarrow> entries (snd (add st d c)) = entries st"
  by (simp add: add_def DataStore_add_def Let_def MessageStore_set_def split: option.splits)

lemma add_in_order_disabled:
  "messageCacheMaxSize st = 0 \<Longrightarrow> entries (add_in_order st ms) = entries st"
  unfolding add_in_order_def
  by (induction ms arbitrary: st) (simp_all add: add_disabled add_frame)

lemma in_response_order_accumulate:
  assumes "distinct (map raw_id data)"
  shows "in_response_order st data (case accumulate st [] data of (messages, st2) \<Rightarrow> (Inr (Many messages), st2))"
proof -
  obtain messages st2 where a: "accumulate st [] data = (messages, st2)"
    by (cases "accumulate st [] data")
  from assms have m: "messages = zip (map raw_id data) (add_refs st data)"
    using fst_accumulate [of "[]" data st] a by (simp add: keys_def)
  then have k: "keys messages = map raw_id data" "map snd messages = add_refs st data"
    by (simp_all add: keys_def length_add_refs)
  have s: "st2 = add_in_order st data"
    using snd_accumulate [of st "[]" data] a by simp
  from heap_add_in_order [of st data] s have h: "take (length (heap st)) (heap st2) = heap st"
    by auto
  have c: "list_all2 (entity_for st st2) data (map snd messages) \<and>
           entries st2 =
             (if messageCacheMaxSize st = 0 then entries st
              else cut_to_max (messageCacheMaxSize st) (entries st @ fresh_entries st messages))"
    if "consistent st"
    using add_refs_entities [OF that assms] entries_add_in_order [OF that assms]
          add_in_order_disabled [of st data] s k(2) m
    by auto
  have r: "entries st2 = entries st @ messages \<and>
           heap st2 = heap st @ map (Message (channel st)) data \<and>
           map snd messages = [length (heap st)..<length (heap st) + length data]"
    if "has_room st data"
    using accumulate_room [OF assms that, of "[]"] a by (auto simp: keys_def)
  from k s h c r a show ?thesis by (simp add: in_response_order_def)
qed

text \<open>
  C5, amended. Batch order preservation: for a response of records with distinct
  identifiers, a batch \<^verbatim>\<open>fetch\<close> (any selector that is not a string) and \<^verbatim>\<open>fetchPinned\<close>
  hand every record to \<^verbatim>\<open>add\<close> in the order received and return a collection keyed
  by identifier that iterates in exactly the response order and maps each identifier
  to the entity \<^verbatim>\<open>add\<close> returned for its record: from a consistent store, the object
  cached under that identifier, untouched, or a new entity built from the record.
  What the cache holds afterwards follows the capacity rule of \<^verbatim>\<open>set\<close>: nothing more
  than before when the maximum is 0, otherwise the old cache followed by the new
  entities in response order, cut from the oldest end to the maximum; all of the
  records, in response order, where the cache has room for them.
\<close>

theorem batch_order_preserved:
  assumes "distinct (map raw_id data)"
  shows "(\<not> is_string sel \<and> get_messages tr (channel st) (default_options sel) = Inr data \<longrightarrow>
            in_response_order (send st (GetMessages (channel st) (default_options sel))) data
              (fetch tr st sel ow)) \<and>
         (get_pins tr (channel st) = Inr data \<longrightarrow>
            in_response_order (send st (GetPins (channel st))) data (fetchPinned tr st))"
proof -
  have f: "fetch tr st sel ow = fetchMany tr st sel" if "\<not> is_string sel"
    using that by (cases sel) (simp_all add: fetch_def is_string_def)
  show ?thesis
    using in_response_order_accumulate [OF assms] f
    by (simp add: fetchMany_def fetchPinned_def Let_def send_frame)
qed

lemma seeded_eq: "seeded = \<lparr>messageCacheMaxSize = 3, channel = ''general'',
     entries = [(''m1'', 0)],
     heap = [Message ''general'' (raw ''m1'' ''edited'')],
     requests = [GetMessage ''general'' ''m1'']\<rparr>"
  by (simp add: seeded_def fetch_def fetchId_def remote_def new_store_def
      send_def add_def DataStore_add_def get_def raw_def MessageStore_set_def Let_def)

theorem batch_order_preserved_witness:
  "distinct (map raw_id [raw ''m3'' ''c'', raw ''m2'' ''b'', raw ''m1'' ''a'']) \<and>
   \<not> is_string (Opts empty_options) \<and>
   get_messages remote (channel seeded) (default_options (Opts empty_options))
     = Inr [raw ''m3'' ''c'', raw ''m2'' ''b'', raw ''m1'' ''a''] \<and>
   get_pins remote (channel seeded) = Inr [raw ''m2'' ''b''] \<and>
   consistent (send seeded (GetMessages ''general'' (Opts empty_options))) \<and>
   has_room (send (new_store 5) (GetMessages ''general'' (Opts empty_options)))
     [raw ''m3'' ''c'', raw ''m2'' ''b'', raw ''m1'' ''a''] \<and>
   in_response_order (send seeded (GetMessages ''general'' (Opts empty_options)))
     [raw ''m3'' ''c'', raw ''m2'' ''b'', raw ''m1'' ''a'']
     (fetch remote seeded (Opts empty_options) False) \<and>
   in_response_order (send seeded (GetPins ''general'')) [raw ''m2'' ''b'']
     (fetchPinned remote seeded) \<and>
   in_response_order (send (new_store 5) (GetMessages ''general'' (Opts empty_options)))
     [raw ''m3'' ''c'', raw ''m2'' ''b'', raw ''m1'' ''a'']
     (fetch remote (new_store 5) (Opts empty_options) False) \<and>
   fst (fetch remote seeded (Opts empty_options) False)
     = Inr (Many [(''m3'', 1), (''m2'', 2), (''m1'', 0)]) \<and>
   entries (snd (fetch remote seeded (Opts empty_options) False))
     = [(''m1'', 0), (''m3'', 1), (''m2'', 2)] \<and>
   heap (snd (fetch remote seeded (Opts empty_options) False))
     = [Message ''general'' (raw ''m1'' ''edited''), Message ''general'' (raw ''m3'' ''c''),
        Message ''general'' (raw ''m2'' ''b'')] \<and>
   fst (fetch remote (new_store 5) (Opts empty_options) False)
     = Inr (Many [(''m3'', 0), (''m2'', 1), (''m1'', 2)]) \<and>
   entries (snd (fetch remote (new_store 5) (Opts empty_options) False))
     = [(''m3'', 0), (''m2'', 1), (''m1'', 2)]"
proof -
  let ?data = "[raw ''m3'' ''c'', raw ''m2'' ''b'', raw ''m1'' ''a'']"
  have d: "distinct (map raw_id ?data)" "distinct (map raw_id [raw ''m2'' ''b''])"
    by (simp_all add: raw_def)
  have s: "\<not> is_string (Opts empty_options)" by (simp add: is_string_def)
  have g: "get_messages remote (channel seeded) (default_options (Opts empty_options)) = Inr ?data"
          "get_pins remote (channel seeded) = Inr [raw ''m2'' ''b'']"
          "get_messages remote (channel (new_store 5)) (default_options (Opts empty_options)) = Inr ?data"
    by (simp_all add: remote_def)
  have c: "channel seeded = ''general''" "channel (new_store 5) = ''general''"
          "default_options (Opts empty_options) = Opts empty_options"
    by (simp_all add: seeded_eq new_store_def default_options_def)
  have k: "consistent (send seeded (GetMessages ''general'' (Opts empty_options)))"
    by (simp add: consistent_def seeded_eq send_def keys_def)
  have h: "has_room (send (new_store 5) (GetMessages ''general'' (Opts empty_options))) ?data"
    by (simp add: has_room_def send_def new_store_def get_def)
  have v: "fetch remote seeded (Opts empty_options) False =
             (Inr (Many [(''m3'', 1), (''m2'', 2), (''m1'', 0)]),
              \<lparr>messageCacheMaxSize = 3, channel = ''general'',
                 entries = [(''m1'', 0), (''m3'', 1), (''m2'', 2)],
                 heap = [Message ''general'' (raw ''m1'' ''edited''), Message ''general'' (raw ''m3'' ''c''),
                         Message ''general'' (raw ''m2'' ''b'')],
                 requests = [GetMessage ''general'' ''m1'', GetMessages ''general'' (Opts empty_options)]\<rparr>)"
    by (simp add: seeded_eq fetch_def fetchMany_def default_options_def remote_def
      send_def add_def DataStore_add_def get_def raw_def MessageStore_set_def Let_def)
  have w: "fst (fetch remote (new_store 5) (Opts empty_options) False)
               = Inr (Many [(''m3'', 0), (''m2'', 1), (''m1'', 2)])"
          "entries (snd (fetch remote (new_store 5) (Opts empty_options) False))
               = [(''m3'', 0), (''m2'', 1), (''m1'', 2)]"
    by (simp_all add: fetch_def fetchMany_def default_options_def remote_def new_store_def
      send_def add_def DataStore_add_def get_def raw_def MessageStore_set_def Let_def)
  from batch_order_preserved [OF d(1), of "Opts empty_options" remote seeded False] s g(1)
  have 1: "in_response_order (send seeded (GetMessages ''general'' (Opts empty_options))) ?data
             (fetch remote seeded (Opts empty_options) False)"
    by (simp add: c)
  from batch_order_preserved [OF d(2), of "Opts empty_options" remote seeded False] g(2)
  have 2: "in_response_order (send seeded (GetPins ''general'')) [raw ''m2'' ''b'']
             (fetchPinned remote seeded)"
    by (simp add: c)
  from batch_order_preserved [OF d(1), of "Opts empty_options" remote "new_store 5" False] s g(3)
  have 3: "in_response_order (send (new_store 5) (GetMessages ''general'' (Opts empty_options))) ?data
             (fetch remote (new_store 5) (Opts empty_options) False)"
    by (simp add: c)
  from d(1) s g(1,2) k h 1 2 3 w show ?thesis unfolding v by simp
qed

text \<open>
  C5 as stated has every record in the cache afterwards and the collection iterate
  over every record of the response. With a maximum of 0 the collection holds the
  three records of the listing and the cache none of them; with a maximum of 2 the
  first record of the listing has been evicted again by the third; and a listing
  that names one identifier twice yields a collection of one entry.
\<close>

theorem batch_order_preserved_counterexample:
  "get_messages remote ''general'' (Opts empty_options)
     = Inr [raw ''m3'' ''c'', raw ''m2'' ''b'', raw ''m1'' ''a''] \<and>
   fst (fetch remote (new_store 0) (Opts empty_options) False)
     = Inr (Many [(''m3'', 0), (''m2'', 1), (''m1'', 2)]) \<and>
   entries (snd (fetch remote (new_store 0) (Opts empty_options) False)) = [] \<and>
   fst (fetch remote (new_store 2) (Opts empty_options) False)
     = Inr (Many [(''m3'', 0), (''m2'', 1), (''m1'', 2)]) \<and>
   entries (snd (fetch remote (new_store 2) (Opts empty_options) False))
     = [(''m2'', 1), (''m1'', 2)] \<and>
   get (snd (fetch remote (new_store 2) (Opts empty_options) False)) ''m3'' = None \<and>
   get_messages repeating ''general'' (Opts empty_options) = Inr [raw ''m1'' ''a'', raw ''m1'' ''b''] \<and>
   fst (fetch repeating (new_store 5) (Opts empty_options) False) = Inr (Many [(''m1'', 0)])"
  by (simp add: fetch_def fetchMany_def default_options_def remote_def repeating_def new_store_def
      send_def add_def DataStore_add_def get_def raw_def MessageStore_set_def MessageStore_delete_def Let_def)

text \<open>
  Consistency is what every store has that started empty and was changed by the
  operations of the store alone: an empty store is consistent, and \<^verbatim>\<open>set\<close> of an
  object of the heap, \<^verbatim>\<open>add\<close>, \<^verbatim>\<open>fetch\<close> and \<^verbatim>\<open>fetchPinned\<close> keep a store consistent.
\<close>

lemma consistent_new_store: "consistent (new_store n)"
  by (simp add: consistent_def new_store_def keys_def)

lemma consistent_send: "consistent (send st rq) = consistent st"
  by (simp add: consistent_def send_def)

lemma set_Collection_set: "set (Collection_set k v es) \<subseteq> insert (k, v) (set es)"
  by (induction es) (auto split: if_splits)

lemma consistent_set:
  assumes "consistent st" "r < length (heap st)"
  shows "consistent (MessageStore_set st k r)"
proof (cases "messageCacheMaxSize st = 0")
  case True
  with assms(1) show ?thesis by (simp add: MessageStore_set_disabled)
next
  case False
  define es where "es = (if int (length (entries st)) \<ge> messageCacheMaxSize st \<and> messageCacheMaxSize st > 0
                         then tl (entries st) else entries st)"
  have e: "entries (MessageStore_set st k r) = Collection_set k r es"
    using False
    by (cases "entries st")
       (auto simp: MessageStore_set_def MessageStore_delete_def Let_def es_def)
  have sub: "set es \<subseteq> set (entries st)"
    by (cases "entries st") (auto simp: es_def)
  have "distinct (keys es)"
    using assms(1) by (cases "entries st") (auto simp: es_def consistent_def keys_def)
  then have "distinct (keys (Collection_set k r es))"
    by (simp add: keys_Collection_set)
  moreover have "list_all (\<lambda>(k, r). r < length (heap st)) (Collection_set k r es)"
    using set_Collection_set [of k r es] sub assms
    by (fastforce simp: list_all_iff consistent_def)
  moreover have "messageCacheMaxSize st > 0 \<longrightarrow>
                 int (length (Collection_set k r es)) \<le> messageCacheMaxSize st"
    using MessageStore_set_bound [of st k r] assms(1) e by (simp add: consistent_def)
  ultimately show ?thesis
    using e by (simp add: consistent_def MessageStore_set_frame)
qed

lemma consistent_accumulate: "consistent st \<Longrightarrow> consistent (snd (accumulate st acc data))"
  by (simp add: snd_accumulate consistent_add_in_order)

lemma consistent_fetchPinned: "consistent st \<Longrightarrow> consistent (snd (fetchPinned tr st))"
  using consistent_accumulate [of "send st (GetPins (channel st))" "[]"]
  by (cases "get_pins tr (channel st)")
     (simp_all add: fetchPinned_def Let_def consistent_send case_prod_beta send_frame)

lemma consistent_fetch:
  assumes "consistent st"
  shows "consistent (snd (fetch tr st sel ow))"
proof -
  have many: "consistent (snd (fetchMany tr st sel))" for sel
    using assms consistent_accumulate [of "send st (GetMessages (channel st) (default_options sel))" "[]"]
    by (cases "get_messages tr (channel st) (default_options sel)")
       (simp_all add: fetchMany_def Let_def consistent_send case_prod_beta send_frame)
  show ?thesis
  proof (cases sel)
    case (Str i)
    let ?s1 = "send st (GetMessage (channel st) i)"
    show ?thesis
    proof (cases "get_message tr (channel st) i")
      case (Inl e)
      with Str assms show ?thesis by (simp add: fetch_def fetchId_def Let_def consistent_send)
    next
      case (Inr d)
      let ?s2 = "case get st i of
                   Some r \<Rightarrow> if ow then ?s1\<lparr>heap := (heap ?s1)[r := patch (heap ?s1 ! r) d]\<rparr> else ?s1
                 | None \<Rightarrow> ?s1"
      from assms have "consistent ?s2"
        by (simp add: consistent_def send_def split: option.splits)
      then have "consistent (snd (add ?s2 d True))" by (rule consistent_add)
      with Str Inr show ?thesis by (simp add: fetch_def fetchId_def Let_def case_prod_beta)
    qed
  qed (simp_all add: fetch_def many)
qed

subsection \<open>Dispatch, the disabled cache, resolution and errors\<close>

lemma add_in_order_frame:
  "requests (add_in_order st ms) = requests st \<and>
   channel (add_in_order st ms) = channel st \<and>
   messageCacheMaxSize (add_in_order st ms) = messageCacheMaxSize st"
  unfolding add_in_order_def
  by (induction ms arbitrary: st) (simp_all add: add_frame)

lemma fetchId_shape:
  "\<exists>res st'. fetchId tr st i ow = (res, st') \<and> requests st' = requests st @ [GetMessage (channel st) i] \<and>
     (\<forall>c. res \<noteq> Inr (Many c))"
proof (cases "get_message tr (channel st) i")
  case (Inl e)
  then show ?thesis by (simp add: fetchId_def Let_def send_def)
next
  case (Inr d)
  let ?s1 = "send st (GetMessage (channel st) i)"
  let ?s2 = "case get st i of
               Some r \<Rightarrow> if ow then ?s1\<lparr>heap := (heap ?s1)[r := patch (heap ?s1 ! r) d]\<rparr> else ?s1
             | None \<Rightarrow> ?s1"
  obtain r st3 where a: "add ?s2 d True = (r, st3)" by (cases "add ?s2 d True")
  have "requests ?s2 = requests st @ [GetMessage (channel st) i]"
    by (simp add: send_def split: option.splits)
  with add_frame(3) [of ?s2 d True] a
  have "requests st3 = requests st @ [GetMessage (channel st) i]" by simp
  with Inr a show ?thesis by (simp add: fetchId_def Let_def)
qed

lemma fetchMany_shape:
  "\<exists>res st'. fetchMany tr st sel = (res, st') \<and>
     requests st' = requests st @ [GetMessages (channel st) (default_options sel)] \<and>
     (\<forall>r. res \<noteq> Inr (Single r))"
proof (cases "get_messages tr (channel st) (default_options sel)")
  case (Inl e)
  then show ?thesis by (simp add: fetchMany_def Let_def send_def)
next
  case (Inr data)
  let ?s1 = "send st (GetMessages (channel st) (default_options sel))"
  obtain messages st2 where a: "accumulate ?s1 [] data = (messages, st2)"
    by (cases "accumulate ?s1 [] data")
  with snd_accumulate [of ?s1 "[]" data] have "st2 = add_in_order ?s1 data" by simp
  then have "requests st2 = requests st @ [GetMessages (channel st) (default_options sel)]"
    by (simp add: add_in_order_frame send_def)
  with Inr a show ?thesis by (simp add: fetchMany_def Let_def)
qed

text \<open>
  C6, amended. Fetch dispatch: \<^verbatim>\<open>fetch\<close> takes the single-item path exactly when the
  selector is a string, and the batch path exactly when it is anything else: a
  number, query options, or absent.
\<close>

theorem fetch_dispatch:
  "single_item_path st (fetch tr st sel ow) = is_string sel \<and>
   batch_path st (fetch tr st sel ow) = (\<not> is_string sel)"
proof (cases "is_string sel")
  case True
  then obtain i where sel: "sel = Str i" by (cases sel) (simp_all add: is_string_def)
  from fetchId_shape [of tr st i ow] obtain res st'
    where f: "fetchId tr st i ow = (res, st')"
      and r: "requests st' = requests st @ [GetMessage (channel st) i]"
      and m: "\<forall>c. res \<noteq> Inr (Many c)" by blast
  from m have "(case res of Inr (Many messages) \<Rightarrow> False | _ \<Rightarrow> True)"
    by (auto split: sum.splits fetch_result.splits)
  with True sel f r show ?thesis
    by (simp add: fetch_def single_item_path_def batch_path_def issued_def)
next
  case False
  then have fm: "fetch tr st sel ow = fetchMany tr st sel"
    by (cases sel) (simp_all add: fetch_def is_string_def)
  from fetchMany_shape [of tr st sel] obtain res st'
    where f: "fetchMany tr st sel = (res, st')"
      and r: "requests st' = requests st @ [GetMessages (channel st) (default_options sel)]"
      and m: "\<forall>r. res \<noteq> Inr (Single r)" by blast
  from m have "(case res of Inr (Single r) \<Rightarrow> False | _ \<Rightarrow> True)"
    by (auto split: sum.splits fetch_result.splits)
  with False fm f r show ?thesis
    by (simp add: single_item_path_def batch_path_def issued_def)
qed

theorem fetch_dispatch_witness:
  "is_string (Str ''m1'') \<and> single_item_path warm (fetch remote warm (Str ''m1'') False) \<and>
   \<not> batch_path warm (fetch remote warm (Str ''m1'') False) \<and>
   \<not> is_string Undefined \<and> batch_path warm (fetch remote warm Undefined False) \<and>
   \<not> single_item_path warm (fetch remote warm Undefined False)"
  using fetch_dispatch [of warm remote "Str ''m1''" False] fetch_dispatch [of warm remote Undefined False]
  by (simp add: is_string_def)

text \<open>
  C6 as stated counts a number among the raw identifiers. The code tests
  \<^verbatim>\<open>typeof message === 'string'\<close>: the selector 42 goes down the batch path, as the
  query of a listing.
\<close>

theorem fetch_dispatch_counterexample:
  "spec_raw_identifier (Num 42) \<and>
   \<not> single_item_path (new_store 5) (fetch remote (new_store 5) (Num 42) False) \<and>
   fst (fetch remote (new_store 5) (Num 42) False) = Inr (Many [(''m3'', 0), (''m2'', 1), (''m1'', 2)]) \<and>
   requests (snd (fetch remote (new_store 5) (Num 42) False)) = [GetMessages ''general'' (Num 42)]"
  by (simp add: spec_raw_identifier_def single_item_path_def issued_def
      fetch_def fetchMany_def default_options_def remote_def new_store_def
      send_def add_def DataStore_add_def get_def raw_def MessageStore_set_def Let_def)

lemma fetchId_disabled:
  assumes "messageCacheMaxSize st = 0" "entries st = []" "get_message tr (channel st) i = Inr d"
  shows "fetch tr st (Str i) ow =
          (Inr (Single (length (heap st))),
           (send st (GetMessage (channel st) i))\<lparr>heap := heap st @ [Message (channel st) d]\<rparr>)"
proof -
  let ?s1 = "send st (GetMessage (channel st) i)"
  from assms(2) have g: "get st i = None" "get ?s1 (raw_id d) = None"
    by (simp_all add: get_def send_def)
  show ?thesis
    using assms(1,3) g add_fresh [OF g(2)]
    by (simp add: fetch_def fetchId_def Let_def send_frame MessageStore_set_def)
qed

text \<open>
  C7. Disabled cache: with a maximum of 0 the cache is empty, and \<^verbatim>\<open>fetch(id)\<close> still
  returns an entity, a fresh object built from the response; the cache is empty
  afterwards, so \<^verbatim>\<open>get(id)\<close> is absent.
\<close>

theorem fetch_disabled_cache:
  assumes "messageCacheMaxSize st = 0" "entries st = []" "get_message tr (channel st) i = Inr d"
  shows "fst (fetch tr st (Str i) ow) = Inr (Single (length (heap st))) \<and>
         heap (snd (fetch tr st (Str i) ow)) ! length (heap st) = Message (channel st) d \<and>
         get (snd (fetch tr st (Str i) ow)) i = None \<and>
         entries (snd (fetch tr st (Str i) ow)) = []"
  using fetchId_disabled [OF assms, of ow] assms(2) by (simp add: get_def send_def)

theorem fetch_disabled_cache_witness:
  "messageCacheMaxSize (new_store 0) = 0 \<and> entries (new_store 0) = [] \<and>
   get_message remote (channel (new_store 0)) ''m1'' = Inr (raw ''m1'' ''edited'') \<and>
   fst (fetch remote (new_store 0) (Str ''m1'') False) = Inr (Single 0) \<and>
   heap (snd (fetch remote (new_store 0) (Str ''m1'') False)) ! 0 = Message ''general'' (raw ''m1'' ''edited'') \<and>
   get (snd (fetch remote (new_store 0) (Str ''m1'') False)) ''m1'' = None"
proof -
  have h: "messageCacheMaxSize (new_store 0) = 0" "entries (new_store 0) = []"
          "get_message remote (channel (new_store 0)) ''m1'' = Inr (raw ''m1'' ''edited'')"
    by (simp_all add: new_store_def remote_def)
  have c: "heap (new_store 0) = []" "channel (new_store 0) = ''general''"
    by (simp_all add: new_store_def)
  from fetch_disabled_cache [OF h, of False] h show ?thesis by (simp add: c)
qed

text \<open>
  The empty cache assumed there is what a store with a maximum of 0 has at all
  times: no operation of the store puts anything into it.
\<close>

lemma disabled_cache_stays_empty:
  assumes "messageCacheMaxSize st = 0" "entries st = []"
  shows "entries (MessageStore_set st k v) = []"
    and "entries (snd (fetch tr st sel ow)) = []"
    and "entries (snd (fetchPinned tr st)) = []"
proof -
  show "entries (MessageStore_set st k v) = []"
    using assms by (simp add: MessageStore_set_disabled)
  have acc: "entries (snd (accumulate (send st rq) [] data)) = []" for rq data
    using assms by (simp add: snd_accumulate add_in_order_disabled send_frame)
  have many: "entries (snd (fetchMany tr st sel)) = []" for sel
    using assms acc [of "GetMessages (channel st) (default_options sel)"]
    by (cases "get_messages tr (channel st) (default_options sel)")
       (simp_all add: fetchMany_def Let_def send_frame case_prod_beta)
  show "entries (snd (fetchPinned tr st)) = []"
    using assms acc [of "GetPins (channel st)"]
    by (cases "get_pins tr (channel st)")
       (simp_all add: fetchPinned_def Let_def send_frame case_prod_beta)
  show "entries (snd (fetch tr st sel ow)) = []"
  proof (cases sel)
    case (Str i)
    show ?thesis
    proof (cases "get_message tr (channel st) i")
      case (Inl e)
      with Str assms show ?thesis by (simp add: fetch_def fetchId_def Let_def send_frame)
    next
      case (Inr d)
      with Str assms fetchId_disabled [OF assms Inr, of ow] show ?thesis by (simp add: send_def)
    qed
  qed (simp_all add: fetch_def many)
qed

text \<open>
  C8. Purity of \<^verbatim>\<open>resolve\<close> and \<^verbatim>\<open>resolveID\<close>: whatever the input, the store is left as
  it was and no request is sent; an uncached identifier resolves to nothing, a
  cached one to its object and to the identifier, a Message object to itself and to
  its identifier.
\<close>

theorem resolve_pure:
  "snd (resolve st x) = st \<and> snd (resolveID st x) = st \<and>
   issued st (snd (resolve st x)) = [] \<and> issued st (snd (resolveID st x)) = [] \<and>
   (get st i = None \<longrightarrow> fst (resolve st (Id i)) = None \<and> fst (resolveID st (Id i)) = None) \<and>
   (get st i = Some r \<longrightarrow> fst (resolve st (Id i)) = Some r \<and> fst (resolveID st (Id i)) = Some i) \<and>
   fst (resolve st (Instance r)) = Some r \<and>
   fst (resolveID st (Instance r)) = Some (msg_id (heap st ! r))"
  by (cases x) (simp_all add: resolve_def resolveID_def issued_def split: option.splits)

theorem resolve_pure_witness:
  "get warm ''m9'' = None \<and> fst (resolve warm (Id ''m9'')) = None \<and> fst (resolveID warm (Id ''m9'')) = None \<and>
   get warm ''m2'' = Some 1 \<and> fst (resolve warm (Id ''m2'')) = Some 1 \<and> fst (resolveID warm (Id ''m2'')) = Some ''m2'' \<and>
   fst (resolveID warm (Instance 1)) = Some ''m2'' \<and>
   snd (resolve warm (Id ''m2'')) = warm \<and> snd (resolveID warm (Id ''m9'')) = warm"
proof -
  have g: "get warm ''m9'' = None" "get warm ''m2'' = Some 1" "msg_id (heap warm ! 1) = ''m2''"
    by (simp_all add: warm_eq get_def Message_def raw_def)
  from resolve_pure [of warm "Id ''m2''" "''m9''" 1] resolve_pure [of warm "Id ''m9''" "''m2''" 1] g
  show ?thesis by simp
qed

text \<open>
  C9. Transport error propagation: when the remote read fails with \<open>e\<close>, the
  single-item fetch, the batch fetch and \<^verbatim>\<open>fetchPinned\<close> all fail with that same \<open>e\<close>;
  no collection is returned, and the store is the one in which the single request
  was sent: cache and heap untouched, one request on the log, none repeated.
\<close>

theorem transport_error_propagates:
  "(get_message tr (channel st) i = Inl e \<longrightarrow>
      fetch tr st (Str i) ow = (Inl e, send st (GetMessage (channel st) i))) \<and>
   (\<not> is_string sel \<and> get_messages tr (channel st) (default_options sel) = Inl e \<longrightarrow>
      fetch tr st sel ow = (Inl e, send st (GetMessages (channel st) (default_options sel)))) \<and>
   (get_pins tr (channel st) = Inl e \<longrightarrow>
      fetchPinned tr st = (Inl e, send st (GetPins (channel st)))) \<and>
   entries (send st rq) = entries st \<and> heap (send st rq) = heap st \<and> issued st (send st rq) = [rq]"
proof -
  have "fetch tr st sel ow = fetchMany tr st sel" if "\<not> is_string sel"
    using that by (cases sel) (simp_all add: fetch_def is_string_def)
  then show ?thesis
    by (simp add: fetch_def fetchId_def fetchMany_def fetchPinned_def Let_def send_frame issued_send)
qed

theorem transport_error_propagates_witness:
  "get_message offline (channel warm) ''m1'' = Inl NetworkError \<and>
   \<not> is_string (Opts empty_options) \<and>
   get_messages offline (channel warm) (default_options (Opts empty_options)) = Inl NetworkError \<and>
   get_pins offline (channel warm) = Inl NetworkError \<and>
   fst (fetch offline warm (Str ''m1'') True) = Inl NetworkError \<and>
   fst (fetch offline warm (Opts empty_options) True) = Inl NetworkError \<and>
   fst (fetchPinned offline warm) = Inl NetworkError \<and>
   entries (snd (fetch offline warm (Str ''m1'') True)) = entries warm \<and>
   heap (snd (fetch offline warm (Str ''m1'') True)) = heap warm"
proof -
  have h: "get_message offline (channel warm) ''m1'' = Inl NetworkError"
          "\<not> is_string (Opts empty_options)"
          "get_messages offline (channel warm) (default_options (Opts empty_options)) = Inl NetworkError"
          "get_pins offline (channel warm) = Inl NetworkError"
    by (simp_all add: offline_def is_string_def)
  from transport_error_propagates [of offline warm "''m1''" NetworkError True "Opts empty_options"] h
  show ?thesis by (simp add: send_frame)
qed

text \<open>
  C10. The overwrite flag is ignored on the batch path: for query options, and for an
  absent selector, \<^verbatim>\<open>fetch\<close> with \<^verbatim>\<open>overwrite\<close> true and with it false give the same
  result and the same store, those of \<^verbatim>\<open>_fetchMany\<close> on the selector alone.
\<close>

theorem batch_ignores_overwrite:
  "fetch tr st (Opts q) True = fetch tr st (Opts q) False \<and>
   fetch tr st Undefined True = fetch tr st Undefined False \<and>
   fetch tr st (Opts q) ow = fetchMany tr st (Opts q)"
  by (simp add: fetch_def)

theorem batch_ignores_overwrite_witness:
  "fetch remote warm (Opts empty_options) True = fetch remote warm (Opts empty_options) False \<and>
   fetch remote warm Undefined True = fetch remote warm Undefined False"
  using batch_ignores_overwrite [of remote warm empty_options True] by simp

end
